theory Spec2Isabelle
  imports Main "HOL-Library.Word"
begin

section \<open>Errors and results\<close>

text \<open>
  A \<^verbatim>\<open>syscall.WaitStatus\<close> is a 32-bit unsigned integer on Linux.  An
  \<^verbatim>\<open>*exec.ExitError\<close> is what \<^verbatim>\<open>cmd.Wait()\<close> returns when the process did not exit
  with status 0; its \<^verbatim>\<open>Sys()\<close> is an \<^verbatim>\<open>interface{}\<close> that may or may not hold a
  \<^verbatim>\<open>syscall.WaitStatus\<close>.
\<close>

type_synonym WaitStatus = "32 word"

datatype ExitError = ExitError (Sys: "WaitStatus option")

text \<open>
  The dynamic values of Go's \<^verbatim>\<open>error\<close> interface that occur in the program.  An
  \<^verbatim>\<open>error\<close> is modelled as \<open>go_error option\<close>, \<open>None\<close> being the nil interface.
  \<open>ExitErrorPtr p\<close> is an interface holding a pointer of type \<^verbatim>\<open>*exec.ExitError\<close>;
  the pointer itself may be nil (\<open>p = None\<close>), and the interface is then still
  different from nil.
\<close>

datatype go_error =
    DeadlineExceeded
  | Canceled
  | ExitErrorPtr "ExitError option"
  | OtherError string

text \<open>
  What a call can do: panic, end the process (\<^verbatim>\<open>logger.Fatal\<close>), return an error,
  or return a value.
\<close>

datatype 'a go_result = Panic string | Fatal string | Err go_error | Ok 'a

section \<open>Events\<close>

datatype EventKind =
    EventRunRequested
  | EventRunStarted
  | EventRunError
  | EventRunFail
  | EventRunWaitError
  | EventRunTimeout
  | EventRunSuccess

text \<open>
  The payloads \<^verbatim>\<open>Run\<close> passes to \<^verbatim>\<open>NewEvent\<close>: \<^verbatim>\<open>nil\<close>, the wait status, or the
  spinner itself (given here by its uuid).
\<close>

datatype Payload = NoPayload | StatusPayload WaitStatus | SpinnerPayload string

record Event =
  source :: string
  kind :: EventKind
  payload :: Payload

section \<open>The process runner\<close>

text \<open>
  The sink and the notification manager are collaborators outside this development;
  only whether the pointer to them is nil matters here, so each is an opaque handle.
\<close>

datatype SpinnerSink = SinkHandle nat
datatype NotificationManager = ManagerHandle nat

record Options =
  Sink :: "SpinnerSink option"
  NotificationManager :: "NotificationManager option"

record Spinner =
  uuid :: string
  options :: Options
  cmd :: string
  args :: "string list"

text \<open>
  Modelled from the spec: \<^verbatim>\<open>NewEvent\<close> and the \<^verbatim>\<open>Event\<close> type are not among the
  sources.  An event records its source (the spinner's identifier), its kind and an
  optional payload.
\<close>

definition NewEvent :: "Spinner \<Rightarrow> EventKind \<Rightarrow> Payload \<Rightarrow> Event" where
  "NewEvent s k p = \<lparr>source = uuid s, kind = k, payload = p\<rparr>"

text \<open>
  \<^verbatim>\<open>strings.Split(s, sep)\<close> for a separator of one byte, following the library's
  loop: cut at the first occurrence of the separator (\<^verbatim>\<open>Index\<close>), continue with what
  follows it, and end with the rest when the separator no longer occurs.
\<close>

function strings_Split :: "string \<Rightarrow> char \<Rightarrow> string list" where
  "strings_Split s sep =
     (if sep \<in> set s
      then takeWhile (\<lambda>c. c \<noteq> sep) s # strings_Split (tl (dropWhile (\<lambda>c. c \<noteq> sep) s)) sep
      else [s])"
  by pat_completeness auto
termination
proof (relation "measure (\<lambda>(s, sep). length s)")
  show "wf (measure (\<lambda>(s, sep). length s))" by simp
next
  fix s :: string and sep :: char
  assume "sep \<in> set s"
  then have "dropWhile (\<lambda>c. c \<noteq> sep) s \<noteq> []" by simp
  then have "length (tl (dropWhile (\<lambda>c. c \<noteq> sep) s)) < length (dropWhile (\<lambda>c. c \<noteq> sep) s)"
    by simp
  also have "\<dots> \<le> length s" by (rule length_dropWhile_le)
  finally show "((tl (dropWhile (\<lambda>c. c \<noteq> sep) s), sep), (s, sep)) \<in> measure (\<lambda>(s, sep). length s)"
    by simp
qed

declare strings_Split.simps [simp del]

text \<open>\<^verbatim>\<open>strings.Join\<close> for a separator of one byte; used to state what the split keeps.\<close>

fun strings_Join :: "string list \<Rightarrow> char \<Rightarrow> string" where
  "strings_Join [] sep = []"
| "strings_Join [p] sep = p"
| "strings_Join (p # q # ps) sep = p @ sep # strings_Join (q # ps) sep"

text \<open>
  \<^verbatim>\<open>NewSpinner\<close>.  The uuid comes from \<^verbatim>\<open>uuid.New()\<close> and is a parameter here.  The
  test \<^verbatim>\<open>len(parts) < 1\<close> and the reads \<^verbatim>\<open>parts[0]\<close>, \<^verbatim>\<open>parts[1:]\<close> are the two cases
  of the list.
\<close>

definition NewSpinner :: "string \<Rightarrow> string \<Rightarrow> Options \<Rightarrow> Spinner go_result" where
  "NewSpinner fresh_uuid command opts =
     (if Sink opts = None then Panic ''no sink''
      else if NotificationManager opts = None then Panic ''no notification manager''
      else (let parts = strings_Split command CHR '' '' in
            case parts of
              [] \<Rightarrow> Err (OtherError ''bad command'')
            | p # ps \<Rightarrow> Ok \<lparr>uuid = fresh_uuid, options = opts, cmd = p, args = ps\<rparr>))"

text \<open>
  What \<^verbatim>\<open>Run\<close> observes of the outside world: the result of \<^verbatim>\<open>cmd.Start()\<close>, the
  result of \<^verbatim>\<open>cmd.Wait()\<close>, and \<^verbatim>\<open>ctx.Err()\<close> of the timeout context when it is read
  after the wait.  The result of the wait is given by its dynamic type, which is what
  the type assertion \<^verbatim>\<open>err.(*exec.ExitError)\<close> inspects: nil (the process exited with
  status 0), a non-nil \<^verbatim>\<open>*exec.ExitError\<close> (it did not), or an error of another type.
\<close>

datatype WaitResult = WaitNil | WaitExitError ExitError | WaitOtherError string

record ProcEnv =
  start_err :: "go_error option"
  wait_res :: WaitResult
  ctx_err :: "go_error option"

text \<open>
  \<^verbatim>\<open>push\<close> hands the event to the notification manager; the events pushed so far
  are kept in order.
\<close>

definition push :: "Event list \<Rightarrow> Event \<Rightarrow> Event list" where
  "push evs e = evs @ [e]"

text \<open>
  \<open>after_wait\<close> is the tail of \<^verbatim>\<open>Run\<close> from the deadline test on, which both
  the nil result of the wait and the exit-error branch fall into.
\<close>

definition after_wait :: "Spinner \<Rightarrow> ProcEnv \<Rightarrow> Event list \<Rightarrow> Event list \<times> go_error option" where
  "after_wait s env evs =
     (if ctx_err env = Some DeadlineExceeded
      then (push evs (NewEvent s EventRunTimeout NoPayload), ctx_err env)
      else (push evs (NewEvent s EventRunSuccess NoPayload), None))"

text \<open>
  \<^verbatim>\<open>Spinner.Run\<close>: the events pushed, in order, and the error returned.  In the
  branch of a wait error the variable returned is \<^verbatim>\<open>exitErr\<close>, the zero value left
  by the failed type assertion: a nil \<^verbatim>\<open>*exec.ExitError\<close> converted to \<^verbatim>\<open>error\<close>.
  After \<^verbatim>\<open>EventRunFail\<close> there is no return: control reaches the deadline test.
\<close>

definition Run :: "Spinner \<Rightarrow> ProcEnv \<Rightarrow> Event list \<times> go_error option" where
  "Run s env =
     (let evs0 = push [] (NewEvent s EventRunRequested NoPayload) in
      case start_err env of
        Some err \<Rightarrow> (push evs0 (NewEvent s EventRunError NoPayload), Some err)
      | None \<Rightarrow>
          (let evs1 = push evs0 (NewEvent s EventRunStarted NoPayload) in
           case wait_res env of
             WaitNil \<Rightarrow> after_wait s env evs1
           | WaitExitError exitErr \<Rightarrow>
               (case Sys exitErr of
                  Some status \<Rightarrow>
                    after_wait s env (push evs1 (NewEvent s EventRunFail (StatusPayload status)))
                | None \<Rightarrow> after_wait s env evs1)
           | WaitOtherError msg \<Rightarrow>
               (push evs1 (NewEvent s EventRunWaitError (SpinnerPayload (uuid s))),
                Some (ExitErrorPtr None))))"

text \<open>The kinds of the events of a run, in order.\<close>

definition run_kinds :: "Spinner \<Rightarrow> ProcEnv \<Rightarrow> EventKind list" where
  "run_kinds s env = map kind (fst (Run s env))"

section \<open>The workflow\<close>

datatype StepStatus = Idle | Pending | Running | Success | Failed

text \<open>
  Modelled from the spec: the \<^verbatim>\<open>Step\<close> type and its methods are not among the
  sources.  A step has a name, a command line, the names of the steps it depends on,
  the references these names resolve to at load time, and a status.  A reference to a
  step is the index of that step in \<^verbatim>\<open>Steps\<close>.  A step starts \<open>Idle\<close>.
\<close>

record Step =
  Name :: string
  Command :: string
  DependsOn :: "string list"
  dependsOn :: "nat list"
  status :: StepStatus

text \<open>
  Modelled from the spec: \<^verbatim>\<open>isDone\<close> is true for \<open>Success\<close> and \<open>Failed\<close>;
  \<^verbatim>\<open>shouldRun\<close> is true only for an \<open>Idle\<close> step all of whose dependencies are
  \<open>Success\<close>; \<^verbatim>\<open>MarkAsPending\<close> makes the step \<open>Pending\<close>.
\<close>

definition isDone :: "Step \<Rightarrow> bool" where
  "isDone st = (status st = Success \<or> status st = Failed)"

definition shouldRun :: "Step list \<Rightarrow> Step \<Rightarrow> bool" where
  "shouldRun steps st =
     (status st = Idle \<and>
      list_all (\<lambda>j. j < length steps \<and> status (steps ! j) = Success) (dependsOn st))"

definition MarkAsPending :: "Step \<Rightarrow> Step" where
  "MarkAsPending st = st\<lparr>status := Pending\<rparr>"

datatype Notifier = NotifierHandle nat

record WorkflowOptions =
  Notifier :: "Notifier option"
  Concurrency :: int
  Timeout :: int

text \<open>
  \<^verbatim>\<open>semaphore.Weighted\<close>: its size and the weight currently held.  Both are
  \<^verbatim>\<open>int64\<close>; the only arithmetic is adding and subtracting 1 between 0 and the size,
  so they are integers here.  \<^verbatim>\<open>Acquire(ctx, n)\<close> succeeds at once when \<open>can_acquire\<close>
  holds, and otherwise blocks until it does or the context is done.  \<^verbatim>\<open>Release\<close>
  panics when the weight held would become negative; \<open>Release\<close> below subtracts
  without that test, and that the weight never becomes negative is proved.
\<close>

record Semaphore =
  sem_size :: int
  sem_cur :: int

definition NewWeighted :: "int \<Rightarrow> Semaphore" where
  "NewWeighted n = \<lparr>sem_size = n, sem_cur = 0\<rparr>"

definition can_acquire :: "Semaphore \<Rightarrow> int \<Rightarrow> bool" where
  "can_acquire sem n = (sem_size sem - sem_cur sem \<ge> n)"

definition acquired :: "Semaphore \<Rightarrow> int \<Rightarrow> Semaphore" where
  "acquired sem n = sem\<lparr>sem_cur := sem_cur sem + n\<rparr>"

definition Release :: "Semaphore \<Rightarrow> int \<Rightarrow> Semaphore" where
  "Release sem n = sem\<lparr>sem_cur := sem_cur sem - n\<rparr>"

record Workflow =
  Version :: string
  Metadata :: "(string \<times> string) list"
  Steps :: "Step list"
  wf_options :: WorkflowOptions
  gatekeeper :: Semaphore
  stopFlag :: bool

text \<open>
  What \<^verbatim>\<open>yaml.Unmarshal\<close> produces: the exported fields of the workflow and of its
  steps.  The other fields have their zero values until the loader sets them.
\<close>

record StepDocument =
  doc_name :: string
  doc_command :: string
  doc_depends_on :: "string list"

record Document =
  doc_version :: string
  doc_metadata :: "(string \<times> string) list"
  doc_steps :: "StepDocument list"

definition unmarshalled_step :: "StepDocument \<Rightarrow> Step" where
  "unmarshalled_step d =
     \<lparr>Name = doc_name d, Command = doc_command d, DependsOn = doc_depends_on d,
      dependsOn = [], status = Idle\<rparr>"

text \<open>\<^verbatim>\<open>findStepByName\<close>: the first step of that name, by its index.\<close>

fun find_from :: "Step list \<Rightarrow> nat \<Rightarrow> string \<Rightarrow> nat option" where
  "find_from [] idx name = None"
| "find_from (st # rest) idx name =
     (if Name st = name then Some idx else find_from rest (Suc idx) name)"

definition findStepByName :: "Step list \<Rightarrow> string \<Rightarrow> nat option" where
  "findStepByName steps name = find_from steps 0 name"

definition invalid_step_name :: "string \<Rightarrow> string \<Rightarrow> string" where
  "invalid_step_name stepName priorStepName =
     ''invalid step name in runs_after for step '' @ stepName @ '' ('' @ priorStepName @ '')''"

text \<open>
  The inner loop of the validation, over the \<^verbatim>\<open>DependsOn\<close> of one step: each name
  is looked up, a name that is not found ends the load with the error, and a name that
  is found is appended to the references of the step.
\<close>

fun link_step :: "Step list \<Rightarrow> Step \<Rightarrow> string list \<Rightarrow> go_error + Step" where
  "link_step steps st [] = Inr st"
| "link_step steps st (priorStepName # rest) =
     (case findStepByName steps priorStepName of
        None \<Rightarrow> Inl (OtherError (invalid_step_name (Name st) priorStepName))
      | Some priorStep \<Rightarrow> link_step steps (st\<lparr>dependsOn := dependsOn st @ [priorStep]\<rparr>) rest)"

text \<open>
  The outer loop, over the steps in order.  The lookup reads only the names of the
  steps, which the loop never writes, so it is done in the list as it was unmarshalled.
\<close>

fun link_steps :: "Step list \<Rightarrow> Step list \<Rightarrow> go_error + Step list" where
  "link_steps steps [] = Inr []"
| "link_steps steps (st # rest) =
     (case link_step steps st (DependsOn st) of
        Inl e \<Rightarrow> Inl e
      | Inr st' \<Rightarrow>
          (case link_steps steps rest of
             Inl e \<Rightarrow> Inl e
           | Inr rest' \<Rightarrow> Inr (st' # rest')))"

text \<open>
  \<^verbatim>\<open>LoadWorkflowFromBytes\<close>.  The second argument is the result of
  \<^verbatim>\<open>yaml.Unmarshal\<close>: an error or the document.  \<^verbatim>\<open>logger.Fatal\<close> ends the process.
\<close>

definition LoadWorkflowFromBytes ::
  "WorkflowOptions option \<Rightarrow> go_error + Document \<Rightarrow> Workflow go_result" where
  "LoadWorkflowFromBytes opts parsed =
     (case parsed of
        Inl err \<Rightarrow> Err err
      | Inr doc \<Rightarrow>
          (case opts of
             None \<Rightarrow> Panic ''no options''
           | Some wopts \<Rightarrow>
               if Notifier wopts = None then Panic ''no notifier''
               else if doc_version doc \<noteq> ''1'' then Fatal ''invalid workflow version''
               else (let steps = map unmarshalled_step (doc_steps doc) in
                     case link_steps steps steps of
                       Inl e \<Rightarrow> Err e
                     | Inr linked \<Rightarrow>
                         Ok \<lparr>Version = doc_version doc, Metadata = doc_metadata doc,
                             Steps = linked, wf_options = wopts,
                             gatekeeper = NewWeighted (Concurrency wopts),
                             stopFlag = False\<rparr>)))"

section \<open>Running the workflow\<close>

text \<open>
  Modelled from the spec: \<^verbatim>\<open>Step.Run\<close> is not among the sources.  The dispatched
  task makes the step \<open>Running\<close> immediately before it invokes the process runner; the
  step becomes \<open>Success\<close> when the process exited with status 0 and no timeout
  occurred, and \<open>Failed\<close> when it exited non-zero, failed to start, failed while
  waiting, or was ended by the timeout.  The error that \<^verbatim>\<open>Step.Run\<close> returns is not
  fixed here: it is given with the outcome.
\<close>

datatype StepOutcome = LaunchFailed | WaitFailed | ExitedNonZero | TimedOut | ExitedZero

definition outcome_status :: "StepOutcome \<Rightarrow> StepStatus" where
  "outcome_status oc = (if oc = ExitedZero then Success else Failed)"

definition Step_Run_enter :: "Step \<Rightarrow> Step" where
  "Step_Run_enter st = st\<lparr>status := Running\<rparr>"

definition Step_Run_leave :: "StepOutcome \<Rightarrow> Step \<Rightarrow> Step" where
  "Step_Run_leave oc st = st\<lparr>status := outcome_status oc\<rparr>"

text \<open>
  \<^verbatim>\<open>Workflow.Run\<close> runs one coordinating loop and one goroutine for each step it
  dispatches.  Its executions are the interleavings of their atomic sections.  The
  coordinating loop is at one of these places: before \<^verbatim>\<open>shouldStop\<close>, before
  \<^verbatim>\<open>allDone\<close>, before \<^verbatim>\<open>nextToRun\<close>, in \<^verbatim>\<open>gatekeeper.Acquire\<close> for the step it has
  claimed, in \<^verbatim>\<open>joiner.Wait\<close>, or it has returned.
\<close>

datatype MainPC =
    AtShouldStop
  | AtAllDone
  | AtNextToRun
  | AtAcquire nat
  | AtJoinerWait
  | Returned "go_error option"

text \<open>
  A goroutine: nothing of it has run yet; \<^verbatim>\<open>joiner.Add(1)\<close> is done; it is inside
  \<^verbatim>\<open>toRun.Run\<close>; \<^verbatim>\<open>toRun.Run\<close> has returned the error; the error is tested (and the
  stop flag raised if it is not nil); \<^verbatim>\<open>gatekeeper.Release(1)\<close> is done; the deferred
  \<^verbatim>\<open>joiner.Done()\<close> is done and the goroutine has ended.
\<close>

datatype TaskPC =
    TSpawned
  | TAdded
  | TInRun
  | TRan "go_error option"
  | TChecked
  | TReleased
  | TFinished

record Goroutine =
  toRun :: nat
  pc :: TaskPC

record RunState = Workflow +
  joiner :: int
  main :: MainPC
  tasks :: "Goroutine list"
  ctx_done :: "go_error option"

definition init_run :: "Workflow \<Rightarrow> RunState" where
  "init_run w =
     \<lparr>Version = Version w, Metadata = Metadata w, Steps = Steps w,
      wf_options = wf_options w, gatekeeper = gatekeeper w, stopFlag = stopFlag w,
      joiner = 0, main = AtShouldStop, tasks = [], ctx_done = None\<rparr>"

definition allDone :: "Step list \<Rightarrow> bool" where
  "allDone steps = list_all isDone steps"

text \<open>\<^verbatim>\<open>nextToRun\<close>: the scan for the first step that should run, by its index.\<close>

fun scan_from :: "Step list \<Rightarrow> Step list \<Rightarrow> nat \<Rightarrow> nat option" where
  "scan_from steps [] idx = None"
| "scan_from steps (st # rest) idx =
     (if shouldRun steps st then Some idx else scan_from steps rest (Suc idx))"

definition nextToRun :: "Step list \<Rightarrow> nat option" where
  "nextToRun steps = scan_from steps steps 0"

text \<open>
  One atomic section of the coordinating loop; \<open>None\<close> when it is blocked or has
  returned.  In \<^verbatim>\<open>Acquire\<close> the loop goes on when a unit is available, and fails
  with the error of the context when none is available and the context is done.
\<close>

definition main_step :: "RunState \<Rightarrow> RunState option" where
  "main_step s =
     (case main s of
        AtShouldStop \<Rightarrow>
          if stopFlag s then Some (s\<lparr>main := Returned None\<rparr>)
          else Some (s\<lparr>main := AtAllDone\<rparr>)
      | AtAllDone \<Rightarrow>
          if allDone (Steps s) then Some (s\<lparr>main := AtJoinerWait\<rparr>)
          else Some (s\<lparr>main := AtNextToRun\<rparr>)
      | AtNextToRun \<Rightarrow>
          (case nextToRun (Steps s) of
             None \<Rightarrow> Some (s\<lparr>main := AtShouldStop\<rparr>)
           | Some idx \<Rightarrow>
               Some (s\<lparr>Steps := (Steps s)[idx := MarkAsPending (Steps s ! idx)],
                       main := AtAcquire idx\<rparr>))
      | AtAcquire idx \<Rightarrow>
          if can_acquire (gatekeeper s) 1
          then Some (s\<lparr>gatekeeper := acquired (gatekeeper s) 1,
                       tasks := tasks s @ [\<lparr>toRun = idx, pc = TSpawned\<rparr>],
                       main := AtShouldStop\<rparr>)
          else (case ctx_done s of
                  None \<Rightarrow> None
                | Some err \<Rightarrow> Some (s\<lparr>main := Returned (Some err)\<rparr>))
      | AtJoinerWait \<Rightarrow>
          if joiner s = 0 then Some (s\<lparr>main := Returned None\<rparr>) else None
      | Returned r \<Rightarrow> None)"

text \<open>
  \<^verbatim>\<open>Acquire\<close> may also fail because the context is done while a unit is available
  (the library documents that it may still succeed then).
\<close>

definition acquire_cancelled :: "RunState \<Rightarrow> RunState option" where
  "acquire_cancelled s =
     (case main s of
        AtAcquire idx \<Rightarrow>
          (case ctx_done s of
             None \<Rightarrow> None
           | Some err \<Rightarrow> Some (s\<lparr>main := Returned (Some err)\<rparr>))
      | _ \<Rightarrow> None)"

text \<open>
  One atomic section of the goroutine \<open>k\<close>; \<open>None\<close> when there is no such goroutine,
  when it is inside \<^verbatim>\<open>toRun.Run\<close> (which \<open>task_returns\<close> ends), or when it has ended.
\<close>

definition task_step :: "nat \<Rightarrow> RunState \<Rightarrow> RunState option" where
  "task_step k s =
     (if k < length (tasks s) then
        (let g = tasks s ! k in
         case pc g of
           TSpawned \<Rightarrow>
             Some (s\<lparr>joiner := joiner s + 1, tasks := (tasks s)[k := g\<lparr>pc := TAdded\<rparr>]\<rparr>)
         | TAdded \<Rightarrow>
             Some (s\<lparr>Steps := (Steps s)[toRun g := Step_Run_enter (Steps s ! toRun g)],
                     tasks := (tasks s)[k := g\<lparr>pc := TInRun\<rparr>]\<rparr>)
         | TInRun \<Rightarrow> None
         | TRan err \<Rightarrow>
             Some (s\<lparr>stopFlag := (if err \<noteq> None then True else stopFlag s),
                     tasks := (tasks s)[k := g\<lparr>pc := TChecked\<rparr>]\<rparr>)
         | TChecked \<Rightarrow>
             Some (s\<lparr>gatekeeper := Release (gatekeeper s) 1,
                     tasks := (tasks s)[k := g\<lparr>pc := TReleased\<rparr>]\<rparr>)
         | TReleased \<Rightarrow>
             Some (s\<lparr>joiner := joiner s - 1, tasks := (tasks s)[k := g\<lparr>pc := TFinished\<rparr>]\<rparr>)
         | TFinished \<Rightarrow> None)
      else None)"

text \<open>\<^verbatim>\<open>toRun.Run\<close> of the goroutine \<open>k\<close> returns, with an outcome and an error.\<close>

definition task_returns :: "nat \<Rightarrow> StepOutcome \<Rightarrow> go_error option \<Rightarrow> RunState \<Rightarrow> RunState option" where
  "task_returns k oc err s =
     (if k < length (tasks s) \<and> pc (tasks s ! k) = TInRun then
        (let g = tasks s ! k in
         Some (s\<lparr>Steps := (Steps s)[toRun g := Step_Run_leave oc (Steps s ! toRun g)],
                 tasks := (tasks s)[k := g\<lparr>pc := TRan err\<rparr>]\<rparr>))
      else None)"

text \<open>The context given to \<^verbatim>\<open>Run\<close> becomes done, with its error.\<close>

definition ctx_cancel :: "go_error \<Rightarrow> RunState \<Rightarrow> RunState option" where
  "ctx_cancel err s = (if ctx_done s = None then Some (s\<lparr>ctx_done := Some err\<rparr>) else None)"

text \<open>
  An execution is a list of actions, each saying whose atomic section runs next; it
  is \<open>None\<close> when an action of the list cannot run where it stands.
\<close>

datatype Action =
    Main
  | AcquireCancelled
  | Task nat
  | TaskReturns nat StepOutcome "go_error option"
  | Cancel go_error

fun sched_step :: "Action \<Rightarrow> RunState \<Rightarrow> RunState option" where
  "sched_step Main s = main_step s"
| "sched_step AcquireCancelled s = acquire_cancelled s"
| "sched_step (Task k) s = task_step k s"
| "sched_step (TaskReturns k oc err) s = task_returns k oc err s"
| "sched_step (Cancel err) s = ctx_cancel err s"

fun run_sched :: "Action list \<Rightarrow> RunState \<Rightarrow> RunState option" where
  "run_sched [] s = Some s"
| "run_sched (a # as) s = (case sched_step a s of None \<Rightarrow> None | Some s' \<Rightarrow> run_sched as s')"

text \<open>The number of steps that hold the status \<open>Running\<close>.\<close>

definition running_count :: "Step list \<Rightarrow> nat" where
  "running_count steps = length (filter (\<lambda>st. status st = Running) steps)"

text \<open>
  A goroutine holds its unit of the gate from its start until \<^verbatim>\<open>Release\<close> is done.
\<close>

definition holding :: "Goroutine \<Rightarrow> bool" where
  "holding g = (pc g \<noteq> TReleased \<and> pc g \<noteq> TFinished)"


text \<open>
  The actions of the coordinating loop, and how many of them an execution has.
\<close>

fun loop_section :: "Action \<Rightarrow> bool" where
  "loop_section Main = True"
| "loop_section AcquireCancelled = True"
| "loop_section (Task k) = False"
| "loop_section (TaskReturns k oc err) = False"
| "loop_section (Cancel err) = False"

definition loop_sections :: "Action list \<Rightarrow> nat" where
  "loop_sections acts = length (filter loop_section acts)"





section \<open>Properties of the command split\<close>

lemma strings_Split_nonempty: "strings_Split s sep \<noteq> []"
  by (subst strings_Split.simps) simp

lemma strings_Split_empty: "strings_Split [] sep = [[]]"
  by (subst strings_Split.simps) simp

lemma strings_Join_Cons:
  "ps \<noteq> [] \<Longrightarrow> strings_Join (p # ps) sep = p @ sep # strings_Join ps sep"
  by (cases ps) simp_all

lemma strings_Join_Split: "strings_Join (strings_Split s sep) sep = s"
proof (induction s sep rule: strings_Split.induct)
  case (1 s sep)
  show ?case
  proof (cases "sep \<in> set s")
    case True
    let ?rest = "dropWhile (\<lambda>c. c \<noteq> sep) s"
    from True have ne: "?rest \<noteq> []" by simp
    then have "hd ?rest = sep" using hd_dropWhile [of "\<lambda>c. c \<noteq> sep" s] by simp
    with ne have rest: "?rest = sep # tl ?rest" by (cases ?rest) simp_all
    have "strings_Join (strings_Split s sep) sep
          = takeWhile (\<lambda>c. c \<noteq> sep) s @ sep # strings_Join (strings_Split (tl ?rest) sep) sep"
      using True by (subst strings_Split.simps) (simp add: strings_Join_Cons strings_Split_nonempty)
    also have "\<dots> = takeWhile (\<lambda>c. c \<noteq> sep) s @ sep # tl ?rest"
      using "1.IH" [OF True] by simp
    also have "\<dots> = takeWhile (\<lambda>c. c \<noteq> sep) s @ ?rest"
      using rest by simp
    finally show ?thesis by simp
  next
    case False
    then show ?thesis by (subst strings_Split.simps) simp
  qed
qed

lemma strings_Split_no_sep: "p \<in> set (strings_Split s sep) \<Longrightarrow> sep \<notin> set p"
proof (induction s sep rule: strings_Split.induct)
  case (1 s sep)
  show ?case
  proof (cases "sep \<in> set s")
    case True
    from "1.prems" True
    have "p = takeWhile (\<lambda>c. c \<noteq> sep) s
          \<or> p \<in> set (strings_Split (tl (dropWhile (\<lambda>c. c \<noteq> sep) s)) sep)"
      by (subst (asm) strings_Split.simps) simp
    then show ?thesis
    proof
      assume "p = takeWhile (\<lambda>c. c \<noteq> sep) s"
      then show ?thesis using set_takeWhileD [of sep "\<lambda>c. c \<noteq> sep" s] by auto
    next
      assume "p \<in> set (strings_Split (tl (dropWhile (\<lambda>c. c \<noteq> sep) s)) sep)"
      then show ?thesis using "1.IH" [OF True] by simp
    qed
  next
    case False
    with "1.prems" show ?thesis by (subst (asm) strings_Split.simps) simp
  qed
qed

lemma NewSpinner_Ok:
  assumes "Sink opts \<noteq> None" and "NotificationManager opts \<noteq> None"
  shows "NewSpinner u command opts =
           Ok \<lparr>uuid = u, options = opts, cmd = hd (strings_Split command CHR '' ''),
               args = tl (strings_Split command CHR '' '')\<rparr>"
proof (cases "strings_Split command CHR '' ''")
  case Nil
  then show ?thesis using strings_Split_nonempty [of command "CHR '' ''"] by simp
next
  case (Cons p ps)
  with assms show ?thesis by (simp add: NewSpinner_def)
qed

section \<open>The process runner: claims\<close>

text \<open>
  C1 (the events of one run are a prefix of RunRequested, RunStarted and one terminal
  kind, so that no run emits two terminal kinds).  The code does not do this: when the
  process exits with a non-zero status and the deadline has not passed, \<^verbatim>\<open>Run\<close>
  pushes \<open>EventRunFail\<close> and, there being no return after it, goes on to push
  \<open>EventRunSuccess\<close>.  Here the wait status is 256, which is exit code 1.
\<close>

theorem Run_nonzero_exit_two_terminal_events:
  "run_kinds s \<lparr>start_err = None, wait_res = WaitExitError (ExitError (Some 256)), ctx_err = None\<rparr>
     = [EventRunRequested, EventRunStarted, EventRunFail, EventRunSuccess]"
  by (simp add: run_kinds_def Run_def after_wait_def push_def NewEvent_def)

text \<open>
  C2 (when the wait fails with an error that is not an exit error, \<^verbatim>\<open>Run\<close> emits
  RunWaitError and returns that wait error).  The event is emitted, but the value
  returned is not the wait error: it is the nil \<^verbatim>\<open>*exec.ExitError\<close> left by the failed
  type assertion, whatever the wait error was.
\<close>

theorem Run_wait_error_returns_nil_ExitError:
  "Run s \<lparr>start_err = None, wait_res = WaitOtherError msg, ctx_err = c\<rparr>
     = ([NewEvent s EventRunRequested NoPayload, NewEvent s EventRunStarted NoPayload,
         NewEvent s EventRunWaitError (SpinnerPayload (uuid s))],
        Some (ExitErrorPtr None))"
  by (simp add: Run_def push_def)

text \<open>
  C3 (RunSuccess is emitted exactly when the process exited with status 0 and no
  timeout occurred; never for a non-zero exit).  The code does not do this: for a
  process that exits with a non-zero status (wait status 512 is exit code 2) before
  the deadline, \<open>EventRunSuccess\<close> is emitted and \<^verbatim>\<open>Run\<close> returns nil.
\<close>

theorem Run_nonzero_exit_emits_success:
  "EventRunSuccess \<in> set (run_kinds s
      \<lparr>start_err = None, wait_res = WaitExitError (ExitError (Some 512)), ctx_err = None\<rparr>)
   \<and> snd (Run s \<lparr>start_err = None, wait_res = WaitExitError (ExitError (Some 512)), ctx_err = None\<rparr>)
       = None"
  by (simp add: run_kinds_def Run_def after_wait_def push_def NewEvent_def)

text \<open>
  C4, as the claim states it (whenever the timeout elapses before the process finishes,
  \<^verbatim>\<open>Run\<close> emits RunTimeout and returns the deadline error), fails: when the launch
  succeeded, the deadline has passed and \<^verbatim>\<open>cmd.Wait()\<close> fails with an error that is not
  an exit error, the branch of the wait error returns first.  No \<open>EventRunTimeout\<close> is
  emitted and the error returned is not the deadline error.
\<close>

theorem Run_timeout_after_wait_error_counterexample:
  "EventRunTimeout \<notin> set (run_kinds \<lparr>uuid = ''u'', options = \<lparr>Sink = Some (SinkHandle 0),
        NotificationManager = Some (ManagerHandle 0)\<rparr>, cmd = ''sleep'', args = [''60'']\<rparr>
      \<lparr>start_err = None, wait_res = WaitOtherError ''context deadline exceeded'',
       ctx_err = Some DeadlineExceeded\<rparr>)
   \<and> snd (Run \<lparr>uuid = ''u'', options = \<lparr>Sink = Some (SinkHandle 0),
        NotificationManager = Some (ManagerHandle 0)\<rparr>, cmd = ''sleep'', args = [''60'']\<rparr>
      \<lparr>start_err = None, wait_res = WaitOtherError ''context deadline exceeded'',
       ctx_err = Some DeadlineExceeded\<rparr>) \<noteq> Some DeadlineExceeded"
  by (simp add: run_kinds_def Run_def push_def NewEvent_def)

text \<open>
  C4, amended.  When the deadline has passed where \<^verbatim>\<open>ctx.Err()\<close> is read, no run emits
  \<open>EventRunSuccess\<close>.  If moreover the launch succeeded and \<^verbatim>\<open>cmd.Wait()\<close> returned nil
  or an exit error, the last event is \<open>EventRunTimeout\<close> and the deadline error is
  returned; this holds in particular when the process exited with status 0.
\<close>

theorem Run_deadline_takes_precedence:
  assumes "ctx_err env = Some DeadlineExceeded"
  shows "EventRunSuccess \<notin> set (run_kinds s env)
         \<and> (start_err env = None \<and> (\<forall>msg. wait_res env \<noteq> WaitOtherError msg)
              \<longrightarrow> last (run_kinds s env) = EventRunTimeout
                  \<and> EventRunTimeout \<in> set (run_kinds s env)
                  \<and> snd (Run s env) = Some DeadlineExceeded)"
  using assms
  by (cases "start_err env"; cases "wait_res env")
     (auto simp: run_kinds_def Run_def after_wait_def push_def NewEvent_def Let_def
           split: option.splits)

theorem Run_deadline_takes_precedence_witness:
  "ctx_err \<lparr>start_err = None, wait_res = WaitNil, ctx_err = Some DeadlineExceeded\<rparr>
     = Some DeadlineExceeded
   \<and> run_kinds \<lparr>uuid = ''u'', options = \<lparr>Sink = Some (SinkHandle 0),
        NotificationManager = Some (ManagerHandle 0)\<rparr>, cmd = ''true'', args = []\<rparr>
       \<lparr>start_err = None, wait_res = WaitNil, ctx_err = Some DeadlineExceeded\<rparr>
     = [EventRunRequested, EventRunStarted, EventRunTimeout]
   \<and> snd (Run \<lparr>uuid = ''u'', options = \<lparr>Sink = Some (SinkHandle 0),
        NotificationManager = Some (ManagerHandle 0)\<rparr>, cmd = ''true'', args = []\<rparr>
       \<lparr>start_err = None, wait_res = WaitNil, ctx_err = Some DeadlineExceeded\<rparr>)
     = Some DeadlineExceeded"
  using Run_deadline_takes_precedence
    [of "\<lparr>start_err = None, wait_res = WaitNil, ctx_err = Some DeadlineExceeded\<rparr>"
        "\<lparr>uuid = ''u'', options = \<lparr>Sink = Some (SinkHandle 0),
          NotificationManager = Some (ManagerHandle 0)\<rparr>, cmd = ''true'', args = []\<rparr>"]
  by (simp add: run_kinds_def Run_def after_wait_def push_def NewEvent_def)

text \<open>
  C9, as the claim states it (the tokens are delimited by whitespace, so that runs of
  spaces or tabs give the same executable and arguments as single spaces), fails: the
  command is cut at every single space and nowhere else.  Two spaces give an empty
  argument, and a tab is part of the token.
\<close>

theorem NewSpinner_whitespace_counterexample:
  "NewSpinner ''u'' ''ls  -l'' \<lparr>Sink = Some (SinkHandle 0), NotificationManager = Some (ManagerHandle 0)\<rparr>
     \<noteq> NewSpinner ''u'' ''ls -l'' \<lparr>Sink = Some (SinkHandle 0), NotificationManager = Some (ManagerHandle 0)\<rparr>
   \<and> NewSpinner ''u'' ''ls  -l'' \<lparr>Sink = Some (SinkHandle 0), NotificationManager = Some (ManagerHandle 0)\<rparr>
     = Ok \<lparr>uuid = ''u'', options = \<lparr>Sink = Some (SinkHandle 0), NotificationManager = Some (ManagerHandle 0)\<rparr>,
          cmd = ''ls'', args = ['''', ''-l'']\<rparr>
   \<and> NewSpinner ''u'' (''ls'' @ [CHR 0x09] @ ''-l'')
        \<lparr>Sink = Some (SinkHandle 0), NotificationManager = Some (ManagerHandle 0)\<rparr>
     = Ok \<lparr>uuid = ''u'', options = \<lparr>Sink = Some (SinkHandle 0), NotificationManager = Some (ManagerHandle 0)\<rparr>,
          cmd = ''ls'' @ [CHR 0x09] @ ''-l'', args = []\<rparr>"
  by (simp add: NewSpinner_def strings_Split.simps)

text \<open>
  C9, amended.  Given a sink and a notification manager, \<^verbatim>\<open>NewSpinner\<close> cuts the command
  at every single space character: the executable and the arguments, in order, joined
  again with one space between neighbours, are the command string itself, and none of
  them contains a space.  Nothing is expanded, unquoted or substituted.
\<close>

theorem NewSpinner_splits_at_single_spaces:
  assumes "Sink opts \<noteq> None" and "NotificationManager opts \<noteq> None"
  shows "\<exists>sp. NewSpinner u command opts = Ok sp
              \<and> strings_Join (cmd sp # args sp) CHR '' '' = command
              \<and> (\<forall>p \<in> set (cmd sp # args sp). CHR '' '' \<notin> set p)"
proof -
  let ?parts = "strings_Split command CHR '' ''"
  have ne: "?parts \<noteq> []" by (rule strings_Split_nonempty)
  then have parts: "hd ?parts # tl ?parts = ?parts" by simp
  show ?thesis
    using NewSpinner_Ok [OF assms, of u command] parts
      strings_Join_Split [of command "CHR '' ''"]
      strings_Split_no_sep [of _ command "CHR '' ''"]
    by (metis Spinner.select_convs(3) Spinner.select_convs(4))
qed

theorem NewSpinner_splits_at_single_spaces_witness:
  "Sink \<lparr>Sink = Some (SinkHandle 0), NotificationManager = Some (ManagerHandle 0)\<rparr> \<noteq> None
   \<and> NotificationManager \<lparr>Sink = Some (SinkHandle 0), NotificationManager = Some (ManagerHandle 0)\<rparr> \<noteq> None
   \<and> (\<exists>sp. NewSpinner ''u'' ''ls  -l''
              \<lparr>Sink = Some (SinkHandle 0), NotificationManager = Some (ManagerHandle 0)\<rparr> = Ok sp
          \<and> strings_Join (cmd sp # args sp) CHR '' '' = ''ls  -l''
          \<and> (\<forall>p \<in> set (cmd sp # args sp). CHR '' '' \<notin> set p))"
  using NewSpinner_splits_at_single_spaces
    [of "\<lparr>Sink = Some (SinkHandle 0), NotificationManager = Some (ManagerHandle 0)\<rparr>" "''u''" "''ls  -l''"]
  by simp

text \<open>
  C10.  Splitting any command string yields at least one element, so the branch
  ``bad command'' is never taken: \<^verbatim>\<open>NewSpinner\<close> returns an error for no command
  string, and given a sink and a notification manager it returns a spinner.  For the
  empty command the executable is the empty string and there are no arguments.
\<close>

theorem NewSpinner_never_bad_command:
  "1 \<le> length (strings_Split command CHR '' '')
   \<and> (\<forall>e. NewSpinner u command opts \<noteq> Err e)
   \<and> (Sink opts \<noteq> None \<and> NotificationManager opts \<noteq> None
        \<longrightarrow> (\<exists>sp. NewSpinner u command opts = Ok sp)
            \<and> NewSpinner u [] opts = Ok \<lparr>uuid = u, options = opts, cmd = [], args = []\<rparr>)"
proof -
  have ne: "strings_Split command CHR '' '' \<noteq> []" by (rule strings_Split_nonempty)
  then have len: "1 \<le> length (strings_Split command CHR '' '')"
    by (cases "strings_Split command CHR '' ''") simp_all
  have no_err: "NewSpinner u command opts \<noteq> Err e" for e
    using ne by (cases "strings_Split command CHR '' ''") (simp_all add: NewSpinner_def)
  have ok: "\<exists>sp. NewSpinner u command opts = Ok sp"
    and empty: "NewSpinner u [] opts = Ok \<lparr>uuid = u, options = opts, cmd = [], args = []\<rparr>"
    if "Sink opts \<noteq> None" "NotificationManager opts \<noteq> None"
    using that NewSpinner_Ok [of opts u] by (simp_all add: strings_Split_empty)
  from len no_err ok empty show ?thesis by blast
qed

theorem NewSpinner_never_bad_command_witness:
  "Sink \<lparr>Sink = Some (SinkHandle 0), NotificationManager = Some (ManagerHandle 0)\<rparr> \<noteq> None
   \<and> NotificationManager \<lparr>Sink = Some (SinkHandle 0), NotificationManager = Some (ManagerHandle 0)\<rparr> \<noteq> None
   \<and> NewSpinner ''u'' '''' \<lparr>Sink = Some (SinkHandle 0), NotificationManager = Some (ManagerHandle 0)\<rparr>
       = Ok \<lparr>uuid = ''u'',
             options = \<lparr>Sink = Some (SinkHandle 0), NotificationManager = Some (ManagerHandle 0)\<rparr>,
             cmd = '''', args = []\<rparr>"
  using NewSpinner_never_bad_command
    [of "''''" "''u''" "\<lparr>Sink = Some (SinkHandle 0), NotificationManager = Some (ManagerHandle 0)\<rparr>"]
  by simp

section \<open>Loading: the validation of the dependencies\<close>

lemma find_from_None: "find_from steps idx name = None \<longleftrightarrow> name \<notin> Name ` set steps"
  by (induction steps arbitrary: idx) auto

lemma findStepByName_None: "findStepByName steps name = None \<longleftrightarrow> name \<notin> Name ` set steps"
  by (simp add: findStepByName_def find_from_None)

lemma link_step_Inl:
  "link_step steps st refs = Inl e \<Longrightarrow>
     \<exists>r \<in> set refs. r \<notin> Name ` set steps \<and> e = OtherError (invalid_step_name (Name st) r)"
proof (induction refs arbitrary: st)
  case Nil
  then show ?case by simp
next
  case (Cons r refs)
  show ?case
  proof (cases "findStepByName steps r")
    case None
    with Cons.prems show ?thesis by (simp add: findStepByName_None)
  next
    case (Some j)
    with Cons.prems have "link_step steps (st\<lparr>dependsOn := dependsOn st @ [j]\<rparr>) refs = Inl e"
      by simp
    from Cons.IH [OF this] show ?thesis by auto
  qed
qed

lemma link_step_Inr:
  "link_step steps st refs = Inr st' \<Longrightarrow>
     (\<forall>r \<in> set refs. r \<in> Name ` set steps) \<and> status st' = status st \<and> Name st' = Name st"
proof (induction refs arbitrary: st)
  case Nil
  then show ?case by simp
next
  case (Cons r refs)
  show ?case
  proof (cases "findStepByName steps r")
    case None
    with Cons.prems show ?thesis by simp
  next
    case (Some j)
    then have "r \<in> Name ` set steps"
      using findStepByName_None [of steps r] by simp
    moreover from Some Cons.prems
    have "link_step steps (st\<lparr>dependsOn := dependsOn st @ [j]\<rparr>) refs = Inr st'"
      by simp
    from Cons.IH [OF this] have "(\<forall>r \<in> set refs. r \<in> Name ` set steps)
        \<and> status st' = status st \<and> Name st' = Name st" by simp
    ultimately show ?thesis by simp
  qed
qed

lemma link_step_total:
  "(\<forall>r \<in> set refs. r \<in> Name ` set steps) \<Longrightarrow> \<exists>st'. link_step steps st refs = Inr st'"
proof (induction refs arbitrary: st)
  case Nil
  then show ?case by simp
next
  case (Cons r refs)
  then have "findStepByName steps r \<noteq> None" by (simp add: findStepByName_None)
  then obtain j where "findStepByName steps r = Some j" by auto
  with Cons show ?case by simp
qed

lemma link_steps_Inl:
  "link_steps steps sts = Inl e \<Longrightarrow>
     \<exists>st \<in> set sts. \<exists>r \<in> set (DependsOn st).
        r \<notin> Name ` set steps \<and> e = OtherError (invalid_step_name (Name st) r)"
proof (induction sts)
  case Nil
  then show ?case by simp
next
  case (Cons st sts)
  show ?case
  proof (cases "link_step steps st (DependsOn st)")
    case (Inl e')
    with Cons.prems have "e' = e" by simp
    with Inl link_step_Inl [of steps st "DependsOn st" e] show ?thesis by auto
  next
    case (Inr st')
    with Cons.prems have "link_steps steps sts = Inl e"
      by (simp split: sum.splits)
    from Cons.IH [OF this] show ?thesis by auto
  qed
qed

lemma link_steps_Inr:
  "link_steps steps sts = Inr linked \<Longrightarrow>
     (\<forall>st \<in> set sts. \<forall>r \<in> set (DependsOn st). r \<in> Name ` set steps)
     \<and> map status linked = map status sts"
proof (induction sts arbitrary: linked)
  case Nil
  then show ?case by auto
next
  case (Cons st sts)
  from Cons.prems obtain st' rest' where
    st': "link_step steps st (DependsOn st) = Inr st'" and
    rest': "link_steps steps sts = Inr rest'" and
    linked: "linked = st' # rest'"
    by (auto split: sum.splits)
  from link_step_Inr [OF st'] Cons.IH [OF rest'] linked show ?case by simp
qed

lemma link_steps_total:
  "(\<forall>st \<in> set sts. \<forall>r \<in> set (DependsOn st). r \<in> Name ` set steps) \<Longrightarrow>
     \<exists>linked. link_steps steps sts = Inr linked"
proof (induction sts)
  case Nil
  then show ?case by simp
next
  case (Cons st sts)
  then obtain st' where "link_step steps st (DependsOn st) = Inr st'"
    using link_step_total [of "DependsOn st" steps st] by auto
  moreover from Cons obtain rest' where "link_steps steps sts = Inr rest'" by auto
  ultimately show ?case by simp
qed

lemma unmarshalled_names:
  "Name ` set (map unmarshalled_step ds) = doc_name ` set ds"
  by (auto simp: unmarshalled_step_def image_iff)

lemma LoadWorkflowFromBytes_Ok:
  assumes "LoadWorkflowFromBytes (Some wopts) (Inr doc) = Ok w"
  shows "gatekeeper w = NewWeighted (Concurrency wopts)"
    and "stopFlag w = False"
    and "\<forall>st \<in> set (Steps w). status st = Idle"
proof -
  let ?steps = "map unmarshalled_step (doc_steps doc)"
  from assms obtain linked where
    linked: "link_steps ?steps ?steps = Inr linked" and
    w: "w = \<lparr>Version = doc_version doc, Metadata = doc_metadata doc, Steps = linked,
             wf_options = wopts, gatekeeper = NewWeighted (Concurrency wopts),
             stopFlag = False\<rparr>"
    by (auto simp: LoadWorkflowFromBytes_def Let_def split: if_splits sum.splits)
  from w show "gatekeeper w = NewWeighted (Concurrency wopts)" and "stopFlag w = False"
    by simp_all
  from link_steps_Inr [OF linked] have "map status linked = map status ?steps" by simp
  also have "\<dots> = map (\<lambda>d. Idle) (doc_steps doc)" by (simp add: unmarshalled_step_def)
  finally have "set (map status linked) \<subseteq> {Idle}" by auto
  then have "\<forall>st \<in> set linked. status st = Idle" by auto
  with w show "\<forall>st \<in> set (Steps w). status st = Idle" by simp
qed

text \<open>
  C7, as the claim states it (every document with a dependency on a step that is not
  in the document fails to load with an error naming the step and the reference),
  fails for a document whose version is not the supported one: the version is tested
  first, and \<^verbatim>\<open>logger.Fatal\<close> ends the load with the message of the version.
\<close>

theorem LoadWorkflowFromBytes_version_first_counterexample:
  "LoadWorkflowFromBytes
     (Some \<lparr>Notifier = Some (NotifierHandle 0), Concurrency = 1, Timeout = 0\<rparr>)
     (Inr \<lparr>doc_version = ''2'', doc_metadata = [],
           doc_steps = [\<lparr>doc_name = ''test'', doc_command = ''make test'',
                         doc_depends_on = [''ghost'']\<rparr>]\<rparr>)
     = Fatal ''invalid workflow version''
   \<and> LoadWorkflowFromBytes
     (Some \<lparr>Notifier = Some (NotifierHandle 0), Concurrency = 1, Timeout = 0\<rparr>)
     (Inr \<lparr>doc_version = ''2'', doc_metadata = [],
           doc_steps = [\<lparr>doc_name = ''test'', doc_command = ''make test'',
                         doc_depends_on = [''ghost'']\<rparr>]\<rparr>)
     \<noteq> Err (OtherError (invalid_step_name ''test'' ''ghost''))"
  by (simp add: LoadWorkflowFromBytes_def)

text \<open>
  C7, amended.  For a document of the supported version, loaded with options that have
  a notifier: if some step depends on a name that no step of the document has, the
  load returns an error whose message is built from the name of such a step and the
  name it refers to; if every dependency names a step of the document, the load
  returns a workflow.
\<close>

theorem LoadWorkflowFromBytes_depends_on:
  assumes "Notifier wopts \<noteq> None" and "doc_version doc = ''1''"
  shows "if \<exists>d \<in> set (doc_steps doc). \<exists>r \<in> set (doc_depends_on d).
              r \<notin> doc_name ` set (doc_steps doc)
         then \<exists>d \<in> set (doc_steps doc). \<exists>r \<in> set (doc_depends_on d).
                r \<notin> doc_name ` set (doc_steps doc)
                \<and> LoadWorkflowFromBytes (Some wopts) (Inr doc)
                    = Err (OtherError (invalid_step_name (doc_name d) r))
         else \<exists>w. LoadWorkflowFromBytes (Some wopts) (Inr doc) = Ok w"
proof -
  let ?steps = "map unmarshalled_step (doc_steps doc)"
  have names: "Name ` set ?steps = doc_name ` set (doc_steps doc)"
    by (rule unmarshalled_names)
  have load: "LoadWorkflowFromBytes (Some wopts) (Inr doc) =
      (case link_steps ?steps ?steps of
         Inl e \<Rightarrow> Err e
       | Inr linked \<Rightarrow>
           Ok \<lparr>Version = doc_version doc, Metadata = doc_metadata doc, Steps = linked,
               wf_options = wopts, gatekeeper = NewWeighted (Concurrency wopts),
               stopFlag = False\<rparr>)"
    using assms by (auto simp: LoadWorkflowFromBytes_def Let_def)
  show ?thesis
  proof (cases "link_steps ?steps ?steps")
    case (Inl e)
    from link_steps_Inl [OF Inl] obtain st r where
      st: "st \<in> set ?steps" and r: "r \<in> set (DependsOn st)" and
      missing: "r \<notin> Name ` set ?steps" and
      e: "e = OtherError (invalid_step_name (Name st) r)"
      by blast
    from st obtain d where d: "d \<in> set (doc_steps doc)" and std: "st = unmarshalled_step d"
      by auto
    from r std have rd: "r \<in> set (doc_depends_on d)" by (simp add: unmarshalled_step_def)
    from std have nm: "Name st = doc_name d" by (simp add: unmarshalled_step_def)
    from missing names have miss: "r \<notin> doc_name ` set (doc_steps doc)" by simp
    from load Inl e nm have "LoadWorkflowFromBytes (Some wopts) (Inr doc)
        = Err (OtherError (invalid_step_name (doc_name d) r))" by simp
    with d rd miss show ?thesis by auto
  next
    case (Inr linked)
    from link_steps_Inr [OF Inr]
    have "\<forall>st \<in> set ?steps. \<forall>r \<in> set (DependsOn st). r \<in> Name ` set ?steps" by simp
    then have "\<forall>d \<in> set (doc_steps doc). \<forall>r \<in> set (doc_depends_on d).
        r \<in> doc_name ` set (doc_steps doc)"
      unfolding names by (simp add: unmarshalled_step_def)
    moreover from load Inr have "\<exists>w. LoadWorkflowFromBytes (Some wopts) (Inr doc) = Ok w"
      by simp
    ultimately show ?thesis by auto
  qed
qed

theorem LoadWorkflowFromBytes_depends_on_witness:
  "Notifier \<lparr>Notifier = Some (NotifierHandle 0), Concurrency = 1, Timeout = 0\<rparr> \<noteq> None
   \<and> doc_version \<lparr>doc_version = ''1'', doc_metadata = [],
        doc_steps = [\<lparr>doc_name = ''build'', doc_command = ''make'', doc_depends_on = []\<rparr>,
                     \<lparr>doc_name = ''test'', doc_command = ''make test'',
                      doc_depends_on = [''build'', ''ghost'']\<rparr>]\<rparr> = ''1''
   \<and> LoadWorkflowFromBytes
        (Some \<lparr>Notifier = Some (NotifierHandle 0), Concurrency = 1, Timeout = 0\<rparr>)
        (Inr \<lparr>doc_version = ''1'', doc_metadata = [],
          doc_steps = [\<lparr>doc_name = ''build'', doc_command = ''make'', doc_depends_on = []\<rparr>,
                       \<lparr>doc_name = ''test'', doc_command = ''make test'',
                        doc_depends_on = [''build'', ''ghost'']\<rparr>]\<rparr>)
      = Err (OtherError ''invalid step name in runs_after for step test (ghost)'')"
  using LoadWorkflowFromBytes_depends_on
    [of "\<lparr>Notifier = Some (NotifierHandle 0), Concurrency = 1, Timeout = 0\<rparr>"
        "\<lparr>doc_version = ''1'', doc_metadata = [],
          doc_steps = [\<lparr>doc_name = ''build'', doc_command = ''make'', doc_depends_on = []\<rparr>,
                       \<lparr>doc_name = ''test'', doc_command = ''make test'',
                        doc_depends_on = [''build'', ''ghost'']\<rparr>]\<rparr>"]
  by (simp add: invalid_step_name_def)

section \<open>Running the workflow: invariants of the gate\<close>

lemma length_filter_update:
  "k < length xs \<Longrightarrow>
     int (length (filter P (xs[k := y]))) =
       int (length (filter P xs)) + (if P y then 1 else 0) - (if P (xs ! k) then 1 else 0)"
proof (induction xs arbitrary: k)
  case Nil
  then show ?case by simp
next
  case (Cons x xs)
  show ?case
  proof (cases k)
    case 0
    then show ?thesis by simp
  next
    case (Suc j)
    with Cons.prems have "j < length xs" by simp
    from Cons.IH [OF this] Suc show ?thesis by (auto split: if_splits)
  qed
qed

lemma length_filter_mono:
  "(\<And>x. x \<in> set xs \<Longrightarrow> P x \<Longrightarrow> Q x) \<Longrightarrow> length (filter P xs) \<le> length (filter Q xs)"
  by (induction xs) auto

lemma set_update_keep: "x \<in> set xs \<Longrightarrow> x \<noteq> xs ! k \<Longrightarrow> x \<in> set (xs[k := y])"
proof -
  assume "x \<in> set xs" and neq: "x \<noteq> xs ! k"
  then obtain j where j: "j < length xs" and x: "xs ! j = x"
    by (auto simp: in_set_conv_nth)
  with neq have "j \<noteq> k" by auto
  with j x have "xs[k := y] ! j = x" by simp
  with j show ?thesis by (metis length_list_update nth_mem)
qed

lemma sem_size_step:
  "sched_step a s = Some s' \<Longrightarrow> sem_size (gatekeeper s') = sem_size (gatekeeper s)"
  by (cases a)
     (auto simp: main_step_def acquire_cancelled_def task_step_def task_returns_def
         ctx_cancel_def acquired_def Release_def Let_def
       split: MainPC.splits TaskPC.splits option.splits if_splits)

lemma holding_step:
  assumes "sched_step a s = Some s'"
    and "sem_cur (gatekeeper s) = int (length (filter holding (tasks s)))"
  shows "sem_cur (gatekeeper s') = int (length (filter holding (tasks s')))"
proof (cases a)
  case Main
  with assms show ?thesis
    by (auto simp: main_step_def acquired_def holding_def
          split: MainPC.splits option.splits if_splits)
next
  case AcquireCancelled
  with assms show ?thesis
    by (auto simp: acquire_cancelled_def split: MainPC.splits option.splits)
next
  case (Task k)
  with assms have k: "k < length (tasks s)"
    by (auto simp: task_step_def split: if_splits)
  from Task assms k show ?thesis
    by (auto simp: task_step_def Release_def holding_def Let_def length_filter_update
          split: TaskPC.splits)
next
  case (TaskReturns k oc err)
  with assms show ?thesis
    by (auto simp: task_returns_def holding_def Let_def length_filter_update
          split: if_splits)
next
  case (Cancel err)
  with assms show ?thesis
    by (auto simp: ctx_cancel_def split: if_splits)
qed

lemma bound_step:
  assumes "sched_step a s = Some s'"
    and "sem_cur (gatekeeper s) \<le> max 0 (sem_size (gatekeeper s))"
  shows "sem_cur (gatekeeper s') \<le> max 0 (sem_size (gatekeeper s'))"
  using assms
  by (cases a)
     (auto simp: main_step_def acquire_cancelled_def task_step_def task_returns_def
         ctx_cancel_def acquired_def Release_def can_acquire_def Let_def
       split: MainPC.splits TaskPC.splits option.splits if_splits)

text \<open>Every step that is \<open>Running\<close> is the step of a goroutine inside \<^verbatim>\<open>toRun.Run\<close>.\<close>

lemma running_step:
  assumes step: "sched_step a s = Some s'"
    and inv: "\<And>i. i < length (Steps s) \<Longrightarrow> status (Steps s ! i) = Running \<Longrightarrow>
                \<exists>g \<in> set (tasks s). toRun g = i \<and> pc g = TInRun"
    and i: "i < length (Steps s')" and run: "status (Steps s' ! i) = Running"
  shows "\<exists>g \<in> set (tasks s'). toRun g = i \<and> pc g = TInRun"
proof (cases a)
  case Main
  show ?thesis
  proof (cases "main s")
    case AtNextToRun
    show ?thesis
    proof (cases "nextToRun (Steps s)")
      case None
      with Main AtNextToRun step have "Steps s' = Steps s" "tasks s' = tasks s"
        by (auto simp: main_step_def)
      with inv i run show ?thesis by simp
    next
      case (Some idx)
      with Main AtNextToRun step have
        st: "Steps s' = (Steps s)[idx := MarkAsPending (Steps s ! idx)]" and
        ts: "tasks s' = tasks s"
        by (auto simp: main_step_def)
      from st i run have "i \<noteq> idx" by (auto simp: MarkAsPending_def)
      with st i run have "i < length (Steps s)" "status (Steps s ! i) = Running" by simp_all
      with inv ts show ?thesis by simp
    qed
  next
    case (AtAcquire idx)
    with Main step have "Steps s' = Steps s" "set (tasks s) \<subseteq> set (tasks s')"
      by (auto simp: main_step_def split: if_splits option.splits)
    with inv i run show ?thesis by (metis subsetD)
  qed (use Main step inv i run in \<open>auto simp: main_step_def split: if_splits\<close>)
next
  case AcquireCancelled
  with step have "Steps s' = Steps s" "tasks s' = tasks s"
    by (auto simp: acquire_cancelled_def split: MainPC.splits option.splits)
  with inv i run show ?thesis by simp
next
  case (Task k)
  with step have k: "k < length (tasks s)"
    by (auto simp: task_step_def split: if_splits)
  let ?g = "tasks s ! k"
  show ?thesis
  proof (cases "pc ?g = TAdded")
    case True
    with Task step k have
      st: "Steps s' = (Steps s)[toRun ?g := Step_Run_enter (Steps s ! toRun ?g)]" and
      ts: "tasks s' = (tasks s)[k := ?g\<lparr>pc := TInRun\<rparr>]"
      by (auto simp: task_step_def Let_def)
    show ?thesis
    proof (cases "i = toRun ?g")
      case True
      from ts k have "?g\<lparr>pc := TInRun\<rparr> \<in> set (tasks s')"
        by (simp add: set_update_memI)
      with True show ?thesis by (intro bexI [of _ "?g\<lparr>pc := TInRun\<rparr>"]) simp_all
    next
      case False
      with st i run have "i < length (Steps s)" "status (Steps s ! i) = Running" by simp_all
      from inv [OF this] obtain g where g: "g \<in> set (tasks s)" "toRun g = i" "pc g = TInRun"
        by blast
      with False have "g \<noteq> ?g" by auto
      with g ts have "g \<in> set (tasks s')" by (simp add: set_update_keep)
      with g show ?thesis by blast
    qed
  next
    case False
    with Task step k obtain p where
      st: "Steps s' = Steps s" and ts: "tasks s' = (tasks s)[k := ?g\<lparr>pc := p\<rparr>]" and
      notrun: "pc ?g \<noteq> TInRun"
      by (auto simp: task_step_def Let_def split: TaskPC.splits)
    from st i run have "i < length (Steps s)" "status (Steps s ! i) = Running" by simp_all
    from inv [OF this] obtain g where g: "g \<in> set (tasks s)" "toRun g = i" "pc g = TInRun"
      by blast
    with notrun have "g \<noteq> ?g" by auto
    with g ts have "g \<in> set (tasks s')" by (simp add: set_update_keep)
    with g show ?thesis by blast
  qed
next
  case (TaskReturns k oc err)
  let ?g = "tasks s ! k"
  from TaskReturns step have
    st: "Steps s' = (Steps s)[toRun ?g := Step_Run_leave oc (Steps s ! toRun ?g)]" and
    ts: "tasks s' = (tasks s)[k := ?g\<lparr>pc := TRan err\<rparr>]"
    by (auto simp: task_returns_def Let_def split: if_splits)
  from st i run have neq: "i \<noteq> toRun ?g"
    by (auto simp: Step_Run_leave_def outcome_status_def split: if_splits)
  with st i run have "i < length (Steps s)" "status (Steps s ! i) = Running" by simp_all
  from inv [OF this] obtain g where g: "g \<in> set (tasks s)" "toRun g = i" "pc g = TInRun"
    by blast
  with neq have "g \<noteq> ?g" by auto
  with g ts have "g \<in> set (tasks s')" by (simp add: set_update_keep)
  with g show ?thesis by blast
next
  case (Cancel err)
  with step have "Steps s' = Steps s" "tasks s' = tasks s"
    by (auto simp: ctx_cancel_def split: if_splits)
  with inv i run show ?thesis by simp
qed

lemma running_count_le:
  assumes "\<And>i. i < length steps \<Longrightarrow> status (steps ! i) = Running \<Longrightarrow>
             \<exists>g \<in> set gs. toRun g = i \<and> pc g = TInRun"
  shows "running_count steps \<le> length (filter holding gs)"
proof -
  let ?R = "{i. i < length steps \<and> status (steps ! i) = Running}"
  let ?G = "set (filter (\<lambda>g. pc g = TInRun) gs)"
  have "running_count steps = card ?R"
    by (simp add: running_count_def length_filter_conv_card)
  also have "?R \<subseteq> toRun ` ?G" using assms by force
  then have "card ?R \<le> card (toRun ` ?G)" by (intro card_mono) simp_all
  also have "\<dots> \<le> card ?G" by (intro card_image_le) simp
  also have "\<dots> \<le> length (filter (\<lambda>g. pc g = TInRun) gs)" by (rule card_length)
  also have "\<dots> \<le> length (filter holding gs)"
    by (rule length_filter_mono) (simp add: holding_def)
  finally show ?thesis .
qed

lemma run_sched_gate:
  assumes "run_sched acts s = Some s'"
    and "sem_cur (gatekeeper s) = int (length (filter holding (tasks s)))"
    and "sem_cur (gatekeeper s) \<le> max 0 (sem_size (gatekeeper s))"
    and "\<forall>i < length (Steps s). status (Steps s ! i) = Running \<longrightarrow>
           (\<exists>g \<in> set (tasks s). toRun g = i \<and> pc g = TInRun)"
  shows "sem_size (gatekeeper s') = sem_size (gatekeeper s)
       \<and> sem_cur (gatekeeper s') = int (length (filter holding (tasks s')))
       \<and> sem_cur (gatekeeper s') \<le> max 0 (sem_size (gatekeeper s'))
       \<and> (\<forall>i < length (Steps s'). status (Steps s' ! i) = Running \<longrightarrow>
           (\<exists>g \<in> set (tasks s'). toRun g = i \<and> pc g = TInRun))"
  using assms
proof (induction acts arbitrary: s)
  case Nil
  then show ?case by simp
next
  case (Cons a acts)
  from Cons.prems(1) obtain s1 where a: "sched_step a s = Some s1"
    and rest: "run_sched acts s1 = Some s'"
    by (auto split: option.splits)
  have "sem_size (gatekeeper s') = sem_size (gatekeeper s1)
       \<and> sem_cur (gatekeeper s') = int (length (filter holding (tasks s')))
       \<and> sem_cur (gatekeeper s') \<le> max 0 (sem_size (gatekeeper s'))
       \<and> (\<forall>i < length (Steps s'). status (Steps s' ! i) = Running \<longrightarrow>
           (\<exists>g \<in> set (tasks s'). toRun g = i \<and> pc g = TInRun))"
  proof (rule Cons.IH [OF rest])
    show "sem_cur (gatekeeper s1) = int (length (filter holding (tasks s1)))"
      by (rule holding_step [OF a Cons.prems(2)])
    show "sem_cur (gatekeeper s1) \<le> max 0 (sem_size (gatekeeper s1))"
      by (rule bound_step [OF a Cons.prems(3)])
    show "\<forall>i < length (Steps s1). status (Steps s1 ! i) = Running \<longrightarrow>
           (\<exists>g \<in> set (tasks s1). toRun g = i \<and> pc g = TInRun)"
      using running_step [OF a] Cons.prems(4) by blast
  qed
  with sem_size_step [OF a] show ?case by metis
qed



section \<open>Running the workflow: the stop flag and the return\<close>


lemma loop_sections_simps [simp]:
  "loop_sections [] = 0"
  "loop_sections (a # acts) = (if loop_section a then 1 else 0) + loop_sections acts"
  by (simp_all add: loop_sections_def)
















section \<open>Running the workflow: claims\<close>

lemmas sched_defs =
  main_step_def acquire_cancelled_def task_step_def task_returns_def ctx_cancel_def
  init_run_def allDone_def nextToRun_def shouldRun_def isDone_def MarkAsPending_def
  can_acquire_def acquired_def Release_def NewWeighted_def
  Step_Run_enter_def Step_Run_leave_def outcome_status_def

lemmas load_defs =
  LoadWorkflowFromBytes_def unmarshalled_step_def findStepByName_def

text \<open>
  C5 (on every return path \<^verbatim>\<open>Run\<close> waits for all dispatched tasks to finish before
  it returns).  The code does this only on the path of normal completion, which reaches
  \<^verbatim>\<open>joiner.Wait()\<close>; the return on the stop flag and the return on a failed
  \<^verbatim>\<open>Acquire\<close> leave the function at once.  Here two independent steps are dispatched
  with a limit of 2; the second fails to launch and its goroutine raises the stop flag;
  the loop then sees the flag and returns nil while the first step is still \<open>Running\<close>
  inside its goroutine and the goroutine of the second has neither released the gate
  nor called \<^verbatim>\<open>joiner.Done()\<close>.
\<close>

theorem Run_returns_on_stop_without_waiting:
  "LoadWorkflowFromBytes
     (Some \<lparr>Notifier = Some (NotifierHandle 0), Concurrency = 2, Timeout = 0\<rparr>)
     (Inr \<lparr>doc_version = ''1'', doc_metadata = [],
           doc_steps = [\<lparr>doc_name = ''a'', doc_command = ''sleep 60'', doc_depends_on = []\<rparr>,
                        \<lparr>doc_name = ''b'', doc_command = ''nosuch'', doc_depends_on = []\<rparr>]\<rparr>)
     = Ok \<lparr>Version = ''1'', Metadata = [],
           Steps = [\<lparr>Name = ''a'', Command = ''sleep 60'', DependsOn = [], dependsOn = [],
                     status = Idle\<rparr>,
                    \<lparr>Name = ''b'', Command = ''nosuch'', DependsOn = [], dependsOn = [],
                     status = Idle\<rparr>],
           wf_options = \<lparr>Notifier = Some (NotifierHandle 0), Concurrency = 2, Timeout = 0\<rparr>,
           gatekeeper = \<lparr>sem_size = 2, sem_cur = 0\<rparr>, stopFlag = False\<rparr>
   \<and> run_sched
       [Main, Main, Main, Main, Main, Main, Main, Main, Task 0, Task 0, Task 1, Task 1,
        TaskReturns 1 LaunchFailed (Some (OtherError ''exec: nosuch: not found'')), Task 1, Main]
       (init_run \<lparr>Version = ''1'', Metadata = [],
           Steps = [\<lparr>Name = ''a'', Command = ''sleep 60'', DependsOn = [], dependsOn = [],
                     status = Idle\<rparr>,
                    \<lparr>Name = ''b'', Command = ''nosuch'', DependsOn = [], dependsOn = [],
                     status = Idle\<rparr>],
           wf_options = \<lparr>Notifier = Some (NotifierHandle 0), Concurrency = 2, Timeout = 0\<rparr>,
           gatekeeper = \<lparr>sem_size = 2, sem_cur = 0\<rparr>, stopFlag = False\<rparr>)
     = Some \<lparr>Version = ''1'', Metadata = [],
           Steps = [\<lparr>Name = ''a'', Command = ''sleep 60'', DependsOn = [], dependsOn = [],
                     status = Running\<rparr>,
                    \<lparr>Name = ''b'', Command = ''nosuch'', DependsOn = [], dependsOn = [],
                     status = Failed\<rparr>],
           wf_options = \<lparr>Notifier = Some (NotifierHandle 0), Concurrency = 2, Timeout = 0\<rparr>,
           gatekeeper = \<lparr>sem_size = 2, sem_cur = 2\<rparr>, stopFlag = True,
           joiner = 2, main = Returned None,
           tasks = [\<lparr>toRun = 0, pc = TInRun\<rparr>, \<lparr>toRun = 1, pc = TChecked\<rparr>],
           ctx_done = None\<rparr>"
  by (simp add: load_defs sched_defs)

text \<open>
  C6.  In every state of every execution of \<^verbatim>\<open>Run\<close> on a loaded workflow, the weight
  held in the gate is not negative and not above the limit, and the number of steps
  that are \<open>Running\<close> is at most the weight held, hence at most the limit.  The limit
  is \<^verbatim>\<open>options.Concurrency\<close>; were it negative, nothing would ever be admitted, which
  is why the bound is written with \<open>max 0\<close> first and for a limit that is not negative
  after it.
\<close>

theorem Run_gate_bounds_running:
  assumes load: "LoadWorkflowFromBytes (Some wopts) (Inr doc) = Ok w"
    and run: "run_sched acts (init_run w) = Some s"
  shows "0 \<le> sem_cur (gatekeeper s)
       \<and> sem_cur (gatekeeper s) \<le> max 0 (Concurrency wopts)
       \<and> int (running_count (Steps s)) \<le> sem_cur (gatekeeper s)
       \<and> (0 \<le> Concurrency wopts \<longrightarrow>
            sem_cur (gatekeeper s) \<le> Concurrency wopts
            \<and> int (running_count (Steps s)) \<le> Concurrency wopts)"
proof -
  note w = LoadWorkflowFromBytes_Ok [OF load]
  have size0: "sem_size (gatekeeper (init_run w)) = Concurrency wopts"
    and cur0: "sem_cur (gatekeeper (init_run w)) = 0"
    and tasks0: "tasks (init_run w) = []"
    and steps0: "Steps (init_run w) = Steps w"
    using w(1) by (simp_all add: init_run_def NewWeighted_def)
  have idle: "\<forall>i < length (Steps (init_run w)).
      status (Steps (init_run w) ! i) = Running \<longrightarrow>
      (\<exists>g \<in> set (tasks (init_run w)). toRun g = i \<and> pc g = TInRun)"
    using w(3) steps0 by simp
  have inv: "sem_size (gatekeeper s) = sem_size (gatekeeper (init_run w))
       \<and> sem_cur (gatekeeper s) = int (length (filter holding (tasks s)))
       \<and> sem_cur (gatekeeper s) \<le> max 0 (sem_size (gatekeeper s))
       \<and> (\<forall>i < length (Steps s). status (Steps s ! i) = Running \<longrightarrow>
           (\<exists>g \<in> set (tasks s). toRun g = i \<and> pc g = TInRun))"
  proof (rule run_sched_gate [OF run _ _ idle])
    show "sem_cur (gatekeeper (init_run w)) = int (length (filter holding (tasks (init_run w))))"
      using cur0 tasks0 by simp
    show "sem_cur (gatekeeper (init_run w)) \<le> max 0 (sem_size (gatekeeper (init_run w)))"
      using cur0 by simp
  qed
  from inv have cur: "sem_cur (gatekeeper s) = int (length (filter holding (tasks s)))"
    by blast
  from inv have "sem_cur (gatekeeper s) \<le> max 0 (sem_size (gatekeeper s))"
    and "sem_size (gatekeeper s) = Concurrency wopts"
    using size0 by auto
  then have bound: "sem_cur (gatekeeper s) \<le> max 0 (Concurrency wopts)"
    by (simp only:)
  from inv have "running_count (Steps s) \<le> length (filter holding (tasks s))"
    by (intro running_count_le) blast
  with cur have running: "int (running_count (Steps s)) \<le> sem_cur (gatekeeper s)" by simp
  from cur have "0 \<le> sem_cur (gatekeeper s)" by simp
  with bound running show ?thesis by auto
qed

theorem Run_gate_bounds_running_witness:
  "LoadWorkflowFromBytes
     (Some \<lparr>Notifier = Some (NotifierHandle 0), Concurrency = 1, Timeout = 0\<rparr>)
     (Inr \<lparr>doc_version = ''1'', doc_metadata = [],
           doc_steps = [\<lparr>doc_name = ''build'', doc_command = ''make'', doc_depends_on = []\<rparr>,
                        \<lparr>doc_name = ''lint'', doc_command = ''make lint'', doc_depends_on = []\<rparr>]\<rparr>)
     = Ok \<lparr>Version = ''1'', Metadata = [],
           Steps = [\<lparr>Name = ''build'', Command = ''make'', DependsOn = [], dependsOn = [],
                     status = Idle\<rparr>,
                    \<lparr>Name = ''lint'', Command = ''make lint'', DependsOn = [], dependsOn = [],
                     status = Idle\<rparr>],
           wf_options = \<lparr>Notifier = Some (NotifierHandle 0), Concurrency = 1, Timeout = 0\<rparr>,
           gatekeeper = \<lparr>sem_size = 1, sem_cur = 0\<rparr>, stopFlag = False\<rparr>
   \<and> run_sched [Main, Main, Main, Main, Task 0, Task 0, Main, Main, Main]
       (init_run \<lparr>Version = ''1'', Metadata = [],
           Steps = [\<lparr>Name = ''build'', Command = ''make'', DependsOn = [], dependsOn = [],
                     status = Idle\<rparr>,
                    \<lparr>Name = ''lint'', Command = ''make lint'', DependsOn = [], dependsOn = [],
                     status = Idle\<rparr>],
           wf_options = \<lparr>Notifier = Some (NotifierHandle 0), Concurrency = 1, Timeout = 0\<rparr>,
           gatekeeper = \<lparr>sem_size = 1, sem_cur = 0\<rparr>, stopFlag = False\<rparr>)
     = Some \<lparr>Version = ''1'', Metadata = [],
           Steps = [\<lparr>Name = ''build'', Command = ''make'', DependsOn = [], dependsOn = [],
                     status = Running\<rparr>,
                    \<lparr>Name = ''lint'', Command = ''make lint'', DependsOn = [], dependsOn = [],
                     status = Pending\<rparr>],
           wf_options = \<lparr>Notifier = Some (NotifierHandle 0), Concurrency = 1, Timeout = 0\<rparr>,
           gatekeeper = \<lparr>sem_size = 1, sem_cur = 1\<rparr>, stopFlag = False,
           joiner = 1, main = AtAcquire 1, tasks = [\<lparr>toRun = 0, pc = TInRun\<rparr>],
           ctx_done = None\<rparr>
   \<and> running_count
        [\<lparr>Name = ''build'', Command = ''make'', DependsOn = [], dependsOn = [],
          status = Running\<rparr>,
         \<lparr>Name = ''lint'', Command = ''make lint'', DependsOn = [], dependsOn = [],
          status = Pending\<rparr>] = 1
   \<and> int (running_count
        [\<lparr>Name = ''build'', Command = ''make'', DependsOn = [], dependsOn = [],
          status = Running\<rparr>,
         \<lparr>Name = ''lint'', Command = ''make lint'', DependsOn = [], dependsOn = [],
          status = Pending\<rparr>]) \<le> 1"
  using Run_gate_bounds_running
    [of "\<lparr>Notifier = Some (NotifierHandle 0), Concurrency = 1, Timeout = 0\<rparr>"
        "\<lparr>doc_version = ''1'', doc_metadata = [],
           doc_steps = [\<lparr>doc_name = ''build'', doc_command = ''make'', doc_depends_on = []\<rparr>,
                        \<lparr>doc_name = ''lint'', doc_command = ''make lint'', doc_depends_on = []\<rparr>]\<rparr>"
        "\<lparr>Version = ''1'', Metadata = [],
           Steps = [\<lparr>Name = ''build'', Command = ''make'', DependsOn = [], dependsOn = [],
                     status = Idle\<rparr>,
                    \<lparr>Name = ''lint'', Command = ''make lint'', DependsOn = [], dependsOn = [],
                     status = Idle\<rparr>],
           wf_options = \<lparr>Notifier = Some (NotifierHandle 0), Concurrency = 1, Timeout = 0\<rparr>,
           gatekeeper = \<lparr>sem_size = 1, sem_cur = 0\<rparr>, stopFlag = False\<rparr>"
        "[Main, Main, Main, Main, Task 0, Task 0, Main, Main, Main]"
        "\<lparr>Version = ''1'', Metadata = [],
           Steps = [\<lparr>Name = ''build'', Command = ''make'', DependsOn = [], dependsOn = [],
                     status = Running\<rparr>,
                    \<lparr>Name = ''lint'', Command = ''make lint'', DependsOn = [], dependsOn = [],
                     status = Pending\<rparr>],
           wf_options = \<lparr>Notifier = Some (NotifierHandle 0), Concurrency = 1, Timeout = 0\<rparr>,
           gatekeeper = \<lparr>sem_size = 1, sem_cur = 1\<rparr>, stopFlag = False,
           joiner = 1, main = AtAcquire 1, tasks = [\<lparr>toRun = 0, pc = TInRun\<rparr>],
           ctx_done = None\<rparr>"]
  by (simp add: load_defs sched_defs running_count_def)




end
